theory Spec2Isabelle
  imports Complex_Main "HOL-Library.Char_ord" "HOL-Library.List_Lexorder" "HOL-Library.Multiset"
begin

text \<open>
  The program is a Streamlit script: a photo gallery over Google Drive. It lists the
  session folders of a studio folder, sorts and filters them, lists the images of the
  chosen session, cuts the list into pages and renders one page as a grid, downloading
  each image with up to three attempts. This theory embeds the script function by
  function and states the properties claimed of it.
\<close>

section \<open>Data model\<close>

text \<open>
  The Drive API returns each file as a dict. \<open>list_folders\<close> asks for the fields
  \<open>id\<close> and \<open>name\<close>, \<open>list_images\<close> for \<open>id\<close>, \<open>name\<close> and \<open>mimeType\<close>; one record
  serves both, with the MIME type optional. Python strings are modelled as \<open>string\<close>:
  a list of 8-bit characters, read as the UTF-8 bytes of the text. Comparison of byte
  lists is the comparison of code points that Python's \<open>sorted\<close> uses. \<open>lower\<close> and
  \<open>strip\<close> are modelled on ASCII, the bytes above 127 are left as they are.
\<close>

record drive_file =
  id' :: string
  name :: string
  mimeType :: "string option"

section \<open>Session list: sort, search filter, selection (script lines 138 to 152)\<close>

text \<open>
  \<open>sorted(sessions, key=lambda x: x["name"], reverse=True)\<close>. Python's sort is stable,
  and \<open>reverse=True\<close> keeps elements with equal keys in their original order: it is the
  stable ascending sort of the reversed list, reversed. \<open>sort_key\<close> of the HOL library is
  a stable insertion sort.
\<close>

definition sorted_reverse :: "('a \<Rightarrow> 'k::linorder) \<Rightarrow> 'a list \<Rightarrow> 'a list" where
  "sorted_reverse key xs = rev (sort_key key (rev xs))"

definition sort_sessions :: "drive_file list \<Rightarrow> drive_file list" where
  "sort_sessions sessions = sorted_reverse name sessions"

text \<open>\<open>str.lower\<close> on ASCII: the letters A to Z are moved to a to z.\<close>

definition lower_char :: "char \<Rightarrow> char" where
  "lower_char c =
     (if 65 \<le> (of_char c :: nat) \<and> (of_char c :: nat) \<le> 90
      then char_of ((of_char c :: nat) + 32) else c)"

definition lower :: "string \<Rightarrow> string" where
  "lower s = map lower_char s"

text \<open>
  \<open>str.strip()\<close> with no argument removes leading and trailing whitespace; for ASCII
  that is tab, line feed, vertical tab, form feed, carriage return, the four separators
  0x1c to 0x1f, and the space.
\<close>

definition isspace :: "char \<Rightarrow> bool" where
  "isspace c = ((9 \<le> (of_char c :: nat) \<and> (of_char c :: nat) \<le> 13)
              \<or> (28 \<le> (of_char c :: nat) \<and> (of_char c :: nat) \<le> 32))"

definition strip :: "string \<Rightarrow> string" where
  "strip s = rev (dropWhile isspace (rev (dropWhile isspace s)))"

text \<open>\<open>sub in s\<close> on strings: \<open>sub\<close> occurs in \<open>s\<close> as a contiguous run.\<close>

fun startswith :: "string \<Rightarrow> string \<Rightarrow> bool" where
  "startswith s [] = True"
| "startswith [] (c # sub) = False"
| "startswith (d # s) (c # sub) = (d = c \<and> startswith s sub)"

fun str_in :: "string \<Rightarrow> string \<Rightarrow> bool" where
  "str_in sub [] = (sub = [])"
| "str_in sub (d # s) = (startswith (d # s) sub \<or> str_in sub s)"

text \<open>
  Lines 142 to 144. \<open>text\<close> is what the search box returns; the script strips and
  lowers it, and filters only when the result is not empty.
\<close>

definition search_of :: "string \<Rightarrow> string" where
  "search_of text = lower (strip text)"

definition filter_sessions :: "string \<Rightarrow> drive_file list \<Rightarrow> drive_file list" where
  "filter_sessions text sessions =
     (let search = search_of text in
      if search \<noteq> [] then filter (\<lambda>s. str_in search (lower (name s))) sessions
      else sessions)"

text \<open>
  Lines 150 to 152. The select box offers the names and returns the chosen one;
  \<open>next(s for s in sessions if s["name"] == selected_session_name)\<close> is the first
  session with that name, and raises \<open>StopIteration\<close> (here \<open>None\<close>) when there is none.
\<close>

definition session_names :: "drive_file list \<Rightarrow> string list" where
  "session_names sessions = map name sessions"

definition selected_session :: "drive_file list \<Rightarrow> string \<Rightarrow> drive_file option" where
  "selected_session sessions selected_session_name =
     find (\<lambda>s. name s = selected_session_name) sessions"

section \<open>Pagination (script lines 169 to 176)\<close>

text \<open>Python integers are unbounded: \<open>int\<close>. \<open>//\<close> is floor division, as \<open>div\<close> is.\<close>

definition total_pages :: "int \<Rightarrow> int \<Rightarrow> int" where
  "total_pages total' page_size = max 1 ((total' + page_size - 1) div page_size)"

definition start :: "int \<Rightarrow> int \<Rightarrow> int" where
  "start page page_size = (page - 1) * page_size"

definition end' :: "int \<Rightarrow> int \<Rightarrow> int \<Rightarrow> int" where
  "end' page page_size total' = min (start page page_size + page_size) total'"

text \<open>
  \<open>xs[i:j]\<close>: a negative index counts from the end, and both indices are clipped to
  the list.
\<close>

definition slice_index :: "int \<Rightarrow> int \<Rightarrow> nat" where
  "slice_index n i = (if i < 0 then nat (max 0 (i + n)) else nat (min i n))"

definition slice :: "'a list \<Rightarrow> int \<Rightarrow> int \<Rightarrow> 'a list" where
  "slice xs i j =
     (let n = int (length xs); a = slice_index n i; b = slice_index n j
      in take (b - a) (drop a xs))"

definition images_page :: "'a list \<Rightarrow> int \<Rightarrow> int \<Rightarrow> 'a list" where
  "images_page images page page_size =
     slice images (start page page_size) (end' page page_size (int (length images)))"


section \<open>Exceptions, the Drive service and the process state\<close>

text \<open>
  The retry loop tells two classes of exception apart: \<open>ssl.SSLError\<close> and every other
  instance of \<open>Exception\<close>. Each carries its message, the text \<open>str(e)\<close> shows.
  (\<open>KeyboardInterrupt\<close> and \<open>SystemExit\<close> are not instances of \<open>Exception\<close>; they stop
  the script and are not errors of a download.)
\<close>

datatype exn = SSLError string | OtherError string

fun str_exn :: "exn \<Rightarrow> string" where
  "str_exn (SSLError m) = m"
| "str_exn (OtherError m) = m"

text \<open>
  What the service does during one download: \<open>next_chunk()\<close> delivers a chunk and says
  whether it was the last, or raises. A request that fails before any chunk is the
  media \<open>Raises e\<close>.
\<close>

datatype media = LastChunk string | Raises exn | Chunk string media

text \<open>
  The service: what it answers to the request number \<open>n\<close> of the process for a given
  argument. \<open>files_get\<close> answers with the metadata dict, here the value under
  \<open>"name"\<close> if the dict has one; \<open>files_list\<close> answers to a query string with the
  result dict, here the value under \<open>"files"\<close> if the dict has one.
\<close>

record drive_api =
  files_get :: "nat \<Rightarrow> string \<Rightarrow> exn + string option"
  files_list :: "nat \<Rightarrow> string \<Rightarrow> exn + drive_file list option"
  get_media :: "nat \<Rightarrow> string \<Rightarrow> media"

text \<open>
  The trace of a run: each request sent to the service and each \<open>time.sleep\<close>. A
  download attempt counts as one request, its chunks being part of it, and is traced
  with the exception it ended in, if any.
\<close>

datatype event =
    FilesGet string
  | FilesList string
  | GetMedia string "exn option"
  | Sleep rat

text \<open>
  The state of the process: the clock in seconds, the number of requests sent so far,
  the trace, and the four stores of \<open>st.cache_data\<close>, one per decorated function. An
  entry holds the stored result and the time it was stored at.
\<close>

record world =
  clock :: rat
  requests :: nat
  log :: "event list"
  folder_name_cache :: "string \<rightharpoonup> string \<times> rat"
  folders_cache :: "string \<rightharpoonup> drive_file list \<times> rat"
  images_cache :: "string \<rightharpoonup> drive_file list \<times> rat"
  bytes_cache :: "string \<rightharpoonup> string \<times> rat"

definition request :: "event \<Rightarrow> world \<Rightarrow> world" where
  "request ev w = w\<lparr>requests := requests w + 1, log := log w @ [ev]\<rparr>"

definition sleep :: "rat \<Rightarrow> world \<Rightarrow> world" where
  "sleep d w = w\<lparr>clock := clock w + d, log := log w @ [Sleep d]\<rparr>"

section \<open>The helpers, as written (lines 33 to 88)\<close>

text \<open>
  Each helper is decorated with \<open>st.cache_data\<close>, so its name in the script stands
  for the cached function. The function as written, which Python keeps as
  \<open>__wrapped__\<close>, has the suffix \<open>_wrapped\<close> here; the cached functions follow in
  the next section. A function takes the state of the process and returns what it
  returns or raises, with the state after it.
\<close>







text \<open>
  Lines 75 to 79: \<open>while not done: _, done = downloader.next_chunk()\<close>, then
  \<open>fh.getvalue()\<close>. \<open>fh\<close> is the buffer the chunks are written to.
\<close>

fun next_chunks :: "media \<Rightarrow> string \<Rightarrow> exn + string" where
  "next_chunks (LastChunk bs) fh = Inr (fh @ bs)"
| "next_chunks (Raises e) fh = Inl e"
| "next_chunks (Chunk bs rest) fh = next_chunks rest (fh @ bs)"

text \<open>
  Line 88, \<open>raise last_error\<close>. Raising \<open>None\<close> is a \<open>TypeError\<close>; that happens only
  if the loop ran no attempt.
\<close>

definition raise_last :: "exn option \<Rightarrow> exn" where
  "raise_last last_error =
     (case last_error of
        None \<Rightarrow> OtherError ''exceptions must derive from BaseException''
      | Some e \<Rightarrow> e)"

text \<open>
  Lines 71 to 79, the body of the \<open>try\<close>: a request for the media of the file (the
  request number \<open>n\<close> of the process), a fresh buffer, and the chunks written to it.
\<close>

definition attempt :: "drive_api \<Rightarrow> string \<Rightarrow> nat \<Rightarrow> exn + string" where
  "attempt drive file_id n = next_chunks (get_media drive n file_id) []"

text \<open>
  Lines 69 to 88, the loop over \<open>range(3)\<close>. A round that returns ends the function; a
  round that raises is followed by a sleep of 0.8 s for an \<open>SSLError\<close> and of 0.5 s for
  any other exception, also after the last round.
\<close>

fun retry_loop ::
    "drive_api \<Rightarrow> string \<Rightarrow> nat list \<Rightarrow> exn option \<Rightarrow> world \<Rightarrow> (exn + string) \<times> world" where
  "retry_loop drive file_id [] last_error w = (Inl (raise_last last_error), w)"
| "retry_loop drive file_id (a # rest) last_error w =
     (case attempt drive file_id (requests w) of
        Inr bs \<Rightarrow> (Inr bs, request (GetMedia file_id None) w)
      | Inl e \<Rightarrow>
          (case e of
             SSLError m \<Rightarrow>
               retry_loop drive file_id rest (Some e)
                 (sleep (8 / 10) (request (GetMedia file_id (Some e)) w))
           | OtherError m \<Rightarrow>
               retry_loop drive file_id rest (Some e)
                 (sleep (5 / 10) (request (GetMedia file_id (Some e)) w))))"

definition download_image_bytes_wrapped ::
    "drive_api \<Rightarrow> string \<Rightarrow> world \<Rightarrow> (exn + string) \<times> world" where
  "download_image_bytes_wrapped drive file_id w = retry_loop drive file_id [0..<3] None w"

section \<open>The cache decorator (lines 32, 38, 50, 62 and 119)\<close>

text \<open>
  \<open>st.cache_data\<close> keeps one store per decorated function, keyed by the arguments. A
  call looks the arguments up: an entry that is still valid is returned and the function
  is not run. Otherwise the function runs; a result it returns is stored with the
  current time, an exception it raises goes to the caller and nothing is stored. With
  \<open>ttl=300\<close> an entry is valid for 300 seconds after it was stored; with no \<open>ttl\<close> it
  is valid until the store is cleared.
\<close>

definition cache_read :: "rat option \<Rightarrow> rat \<Rightarrow> ('v \<times> rat) option \<Rightarrow> 'v option" where
  "cache_read ttl now entry =
     (case entry of
        None \<Rightarrow> None
      | Some (v, t) \<Rightarrow>
          (case ttl of
             None \<Rightarrow> Some v
           | Some d \<Rightarrow> if now < t + d then Some v else None))"

definition cache_data ::
    "rat option \<Rightarrow> (world \<Rightarrow> string \<rightharpoonup> 'v \<times> rat) \<Rightarrow> ((string \<rightharpoonup> 'v \<times> rat) \<Rightarrow> world \<Rightarrow> world)
      \<Rightarrow> (string \<Rightarrow> world \<Rightarrow> (exn + 'v) \<times> world) \<Rightarrow> string \<Rightarrow> world \<Rightarrow> (exn + 'v) \<times> world" where
  "cache_data ttl store put func arg w =
     (case cache_read ttl (clock w) (store w arg) of
        Some v \<Rightarrow> (Inr v, w)
      | None \<Rightarrow>
          (case func arg w of
             (Inl e, w') \<Rightarrow> (Inl e, w')
           | (Inr v, w') \<Rightarrow> (Inr v, put ((store w')(arg \<mapsto> (v, clock w'))) w')))"




definition download_image_bytes :: "drive_api \<Rightarrow> string \<Rightarrow> world \<Rightarrow> (exn + string) \<times> world" where
  "download_image_bytes drive =
     cache_data None bytes_cache (\<lambda>c w. w\<lparr>bytes_cache := c\<rparr>)
       (download_image_bytes_wrapped drive)"

text \<open>Line 119, \<open>st.cache_data.clear()\<close>: every store is emptied.\<close>

definition cache_data_clear :: "world \<Rightarrow> world" where
  "cache_data_clear w =
     w\<lparr>folder_name_cache := Map.empty, folders_cache := Map.empty,
       images_cache := Map.empty, bytes_cache := Map.empty\<rparr>"

section \<open>The gallery renderer (lines 91 to 110)\<close>

text \<open>
  The imaging library: \<open>Image.open\<close> on the downloaded bytes and \<open>thumbnail\<close> on
  the opened image (the source shrinks the image in place; the model returns the shrunk
  image). Either may raise. What an image is, is left open.
\<close>

record 'img imaging =
  image_open :: "string \<Rightarrow> exn + 'img"
  thumbnail :: "'img \<Rightarrow> int \<times> int \<Rightarrow> exn + 'img"

text \<open>
  What the renderer puts on the page: \<open>st.image\<close> with its caption, \<open>st.error\<close>
  and \<open>st.caption\<close>. A cell is what one round of the loop puts into its column, a
  column is the list of its cells from top to bottom, the page is the list of columns
  from left to right.
\<close>

datatype 'img element = StImage 'img string | StError string | StCaption string

text \<open>Lines 100 to 104, the body of the \<open>try\<close> up to the thumbnail.\<close>

definition load_thumbnail ::
    "drive_api \<Rightarrow> 'img imaging \<Rightarrow> int \<times> int \<Rightarrow> drive_file \<Rightarrow> world \<Rightarrow> (exn + 'img) \<times> world" where
  "load_thumbnail drive pil max_size img w =
     (case download_image_bytes drive (id' img) w of
        (Inl e, w') \<Rightarrow> (Inl e, w')
      | (Inr img_bytes, w') \<Rightarrow>
          (case image_open pil img_bytes of
             Inl e \<Rightarrow> (Inl e, w')
           | Inr pil_img \<Rightarrow>
               (case thumbnail pil pil_img max_size of
                  Inl e \<Rightarrow> (Inl e, w')
                | Inr small \<Rightarrow> (Inr small, w'))))"

text \<open>Line 106 when the \<open>try\<close> got through, lines 109 and 110 when it raised.\<close>

definition render_cell :: "drive_file \<Rightarrow> exn + 'img \<Rightarrow> 'img element list" where
  "render_cell img r =
     (case r of
        Inr pil_img \<Rightarrow> [StImage pil_img (name img)]
      | Inl e \<Rightarrow> [StError (''Failed to load: '' @ name img), StCaption (str_exn e)])"

text \<open>
  \<open>st.columns(cols)\<close> gives \<open>cols\<close> empty columns, and raises for a number that is
  not positive.
\<close>

definition st_columns :: "int \<Rightarrow> exn + 'img element list list list" where
  "st_columns spec =
     (if spec \<le> 0 then Inl (OtherError ''The spec argument to st.columns must be a positive integer'')
      else Inr (replicate (nat spec) []))"

text \<open>\<open>columns[k]\<close>: a negative index counts from the end, an index outside raises.\<close>

definition list_index :: "'a list \<Rightarrow> int \<Rightarrow> exn + nat" where
  "list_index xs k =
     (let n = int (length xs); j = (if k < 0 then k + n else k)
      in if 0 \<le> j \<and> j < n then Inr (nat j) else Inl (OtherError ''list index out of range''))"

text \<open>
  Lines 97 to 110, the loop over \<open>enumerate(images)\<close>. \<open>i % cols\<close> raises for
  \<open>cols = 0\<close>; the column is looked up outside the \<open>try\<close>.
\<close>

fun render_loop ::
    "drive_api \<Rightarrow> 'img imaging \<Rightarrow> int \<times> int \<Rightarrow> int \<Rightarrow> (nat \<times> drive_file) list
      \<Rightarrow> 'img element list list list \<Rightarrow> world \<Rightarrow> (exn + 'img element list list list) \<times> world" where
  "render_loop drive pil max_size cols [] columns w = (Inr columns, w)"
| "render_loop drive pil max_size cols ((i, img) # rest) columns w =
     (if cols = 0 then (Inl (OtherError ''integer modulo by zero''), w)
      else case list_index columns (int i mod cols) of
        Inl e \<Rightarrow> (Inl e, w)
      | Inr k \<Rightarrow>
          (case load_thumbnail drive pil max_size img w of
             (r, w') \<Rightarrow>
               render_loop drive pil max_size cols rest
                 (columns[k := columns ! k @ [render_cell img r]]) w'))"

text \<open>
  The function. Its defaults are \<open>cols=4\<close> and \<open>max_size=(2000, 2000)\<close>; the script
  passes the column count of the slider.
\<close>

definition render_gallery ::
    "drive_api \<Rightarrow> 'img imaging \<Rightarrow> drive_file list \<Rightarrow> int \<Rightarrow> int \<times> int \<Rightarrow> world
      \<Rightarrow> (exn + 'img element list list list) \<times> world" where
  "render_gallery drive pil images cols max_size w =
     (case st_columns cols of
        Inl e \<Rightarrow> (Inl e, w)
      | Inr columns \<Rightarrow> render_loop drive pil max_size cols (enumerate 0 images) columns w)"

section \<open>The sidebar controls and the page input (lines 165 to 172)\<close>

text \<open>
  Streamlit knows a widget that was given no key by its kind and its parameters: the
  label, the bounds and the default value. A run of the script gives a widget the
  value the user last set for it, and its default value when there is none; a value the
  user sets lies within the bounds of the widget. After a run, the values of the
  widgets the run did not show are dropped.
\<close>

datatype widget = Slider string int int int | NumberInput string int int int

fun min_value :: "widget \<Rightarrow> int" where
  "min_value (Slider label lo hi v) = lo"
| "min_value (NumberInput label lo hi v) = lo"

fun max_value :: "widget \<Rightarrow> int" where
  "max_value (Slider label lo hi v) = hi"
| "max_value (NumberInput label lo hi v) = hi"

fun default_value :: "widget \<Rightarrow> int" where
  "default_value (Slider label lo hi v) = v"
| "default_value (NumberInput label lo hi v) = v"

type_synonym session_state = "widget \<rightharpoonup> int"

definition widget_value :: "session_state \<Rightarrow> widget \<Rightarrow> int" where
  "widget_value ss wd = (case ss wd of Some v \<Rightarrow> v | None \<Rightarrow> default_value wd)"

definition user_sets :: "widget \<Rightarrow> int \<Rightarrow> session_state \<Rightarrow> session_state" where
  "user_sets wd v ss = ss(wd \<mapsto> v)"

definition in_range :: "session_state \<Rightarrow> bool" where
  "in_range ss \<longleftrightarrow> (\<forall>wd v. ss wd = Some v \<longrightarrow> min_value wd \<le> v \<and> v \<le> max_value wd)"

text \<open>
  Lines 165, 166 and 172. The labels start with an emoji, written here as its four
  bytes. The page input has the number of pages as its upper bound, so it is another
  widget whenever the number of pages is another.
\<close>

definition cols_slider :: widget where
  "cols_slider =
     Slider ([CHR 0xF0, CHR 0x9F, CHR 0xA7, CHR 0xB1] @ '' Gallery Columns'') 2 6 4"

definition page_size_slider :: widget where
  "page_size_slider =
     Slider ([CHR 0xF0, CHR 0x9F, CHR 0x93, CHR 0x84] @ '' Images per page'') 10 100 30"

definition page_input :: "int \<Rightarrow> widget" where
  "page_input max_pages =
     NumberInput ([CHR 0xF0, CHR 0x9F, CHR 0x93, CHR 0x8C] @ '' Page'') 1 max_pages 1"

text \<open>
  Lines 165 to 172 for a session of \<open>total\<close> images: the values the run reads from the
  controls, and the state it leaves.
\<close>

record controls =
  cols_value :: int
  page_size_value :: int
  total_pages_value :: int
  page_value :: int

definition sidebar_controls :: "session_state \<Rightarrow> int \<Rightarrow> controls \<times> session_state" where
  "sidebar_controls ss total' =
     (let cols = widget_value ss cols_slider;
          page_size = widget_value ss page_size_slider;
          pages = total_pages total' page_size;
          page = widget_value ss (page_input pages)
      in (\<lparr>cols_value = cols, page_size_value = page_size, total_pages_value = pages,
            page_value = page\<rparr>,
          (\<lambda>wd. if wd = cols_slider \<or> wd = page_size_slider \<or> wd = page_input pages
                then ss wd else None)))"

text \<open>
  A user at the controls: each step sets one widget shown by the last run, and the
  script runs again.
\<close>

fun session :: "(widget \<times> int) list \<Rightarrow> int \<Rightarrow> session_state \<Rightarrow> controls \<times> session_state" where
  "session [] t ss = sidebar_controls ss t"
| "session ((wd, v) # rest) t ss = session rest t (user_sets wd v (snd (sidebar_controls ss t)))"

section \<open>A session of the process\<close>







section \<open>The claims' own wording, for comparison with the code\<close>


section \<open>Reading a rendered page\<close>

text \<open>
  What the \<open>try\<close> of each image of a page came to, in order, the state passing from
  one image to the next as in the loop; the placing of a list of cells into columns in
  turn; the cells that show an image; and the column heights after \<open>n\<close> cells.
\<close>

fun outcomes ::
    "drive_api \<Rightarrow> 'img imaging \<Rightarrow> int \<times> int \<Rightarrow> drive_file list \<Rightarrow> world \<Rightarrow> (exn + 'img) list" where
  "outcomes drive pil max_size [] w = []"
| "outcomes drive pil max_size (img # rest) w =
     (case load_thumbnail drive pil max_size img w of
        (r, w') \<Rightarrow> r # outcomes drive pil max_size rest w')"

fun place :: "nat \<Rightarrow> nat \<Rightarrow> 'c list \<Rightarrow> 'c list list \<Rightarrow> 'c list list" where
  "place c n [] columns = columns"
| "place c n (x # xs) columns = place c (Suc n) xs (columns[n mod c := columns ! (n mod c) @ [x]])"

fun is_image_cell :: "'img element list \<Rightarrow> bool" where
  "is_image_cell [StImage pil_img caption] = True"
| "is_image_cell cell = False"

definition filled :: "nat \<Rightarrow> nat \<Rightarrow> 'c list list \<Rightarrow> bool" where
  "filled c n columns \<longleftrightarrow>
     length columns = c \<and> (\<forall>k<c. length (columns ! k) = (n + c - Suc k) div c)"

section \<open>Reading a trace\<close>

text \<open>
  The download attempts of a trace, the time slept in it, and the backoff as the
  specification words it: 0.8 for a transport (SSL) error, 0.5 for any other. A trace
  of retry rounds is a run of failed attempts, each followed by its backoff, with at
  most one successful attempt at the end.
\<close>

definition is_attempt :: "event \<Rightarrow> bool" where
  "is_attempt ev = (case ev of GetMedia f r \<Rightarrow> True | _ \<Rightarrow> False)"

fun spec_backoff :: "exn \<Rightarrow> rat" where
  "spec_backoff (SSLError m) = 8 / 10"
| "spec_backoff (OtherError m) = 5 / 10"

fun rounds_trace :: "event list \<Rightarrow> bool" where
  "rounds_trace [] = True"
| "rounds_trace [GetMedia f None] = True"
| "rounds_trace (GetMedia f (Some e) # Sleep d # tr) = (d = spec_backoff e \<and> rounds_trace tr)"
| "rounds_trace tr = False"

fun slept :: "event list \<Rightarrow> rat" where
  "slept [] = 0"
| "slept (Sleep d # tr) = d + slept tr"
| "slept (ev # tr) = slept tr"

section \<open>Example inputs\<close>

text \<open>
  A process that has just started, and a service whose first three downloads fail: a
  TLS handshake error, a connection reset after one chunk, and a TLS end of file.
\<close>

definition fresh_world :: world where
  "fresh_world = \<lparr>clock = 0, requests = 0, log = [], folder_name_cache = Map.empty,
     folders_cache = Map.empty, images_cache = Map.empty, bytes_cache = Map.empty\<rparr>"

definition failing_drive :: drive_api where
  "failing_drive =
     \<lparr>files_get = (\<lambda>n folder_id. Inl (OtherError ''not found'')),
      files_list = (\<lambda>n q. Inr None),
      get_media = (\<lambda>n file_id.
        if n = 0 then Raises (SSLError ''handshake'')
        else if n = 1 then Chunk ''ab'' (Raises (OtherError ''reset''))
        else Raises (SSLError ''eof''))\<rparr>"

text \<open>
  A service on which the file f2 cannot be downloaded and every other file arrives in
  two chunks, an imaging library that accepts everything, and a page of three images.
\<close>

definition example_drive :: drive_api where
  "example_drive =
     \<lparr>files_get = (\<lambda>n folder_id. Inr (Some ''Studio A'')),
      files_list = (\<lambda>n q. Inr None),
      get_media = (\<lambda>n file_id.
        if file_id = ''f2'' then Raises (SSLError ''handshake'')
        else Chunk ''JPEG '' (LastChunk file_id))\<rparr>"

definition example_pil :: "string imaging" where
  "example_pil =
     \<lparr>image_open = (\<lambda>img_bytes. Inr img_bytes),
      thumbnail = (\<lambda>pil_img max_size. Inr pil_img)\<rparr>"

definition example_page :: "drive_file list" where
  "example_page =
     [\<lparr>id' = ''f1'', name = ''a.jpg'', mimeType = Some ''image/jpeg''\<rparr>,
      \<lparr>id' = ''f2'', name = ''b.jpg'', mimeType = Some ''image/jpeg''\<rparr>,
      \<lparr>id' = ''f3'', name = ''c.jpg'', mimeType = Some ''image/jpeg''\<rparr>]"


text \<open>
  The state of a user who chose 10 images per page and then page 10.
\<close>

definition example_state :: session_state where
  "example_state = [page_size_slider \<mapsto> 10, page_input 10 \<mapsto> 10]"

section \<open>Facts about the functions\<close>

subsection \<open>Sorting and searching\<close>

lemma sorted_reverse_mset: "mset (sorted_reverse key xs) = mset xs"
  by (simp add: sorted_reverse_def)

lemma sorted_reverse_desc: "sorted_wrt (\<lambda>a b. key b \<le> key a) (sorted_reverse key xs)"
proof -
  have "sorted (map key (sort_key key (rev xs)))" by (rule sorted_sort_key)
  then have "sorted_wrt (\<lambda>a b. key a \<le> key b) (sort_key key (rev xs))"
    by (simp add: sorted_wrt_map)
  then show ?thesis
    by (simp add: sorted_reverse_def sorted_wrt_rev)
qed

lemma sorted_reverse_stable:
  "filter (\<lambda>x. key x = k) (sorted_reverse key xs) = filter (\<lambda>x. key x = k) xs"
proof -
  have "filter (\<lambda>x. key x = k) (sort_key key (rev xs)) = filter (\<lambda>x. key x = k) (rev xs)"
    by (rule sort_key_stable)
  then show ?thesis
    by (simp add: sorted_reverse_def rev_filter [symmetric])
qed




subsection \<open>Pages and slices\<close>

lemma div_bounds:
  fixes a b :: int
  assumes "0 < b"
  shows "(a div b) * b \<le> a" and "a < (a div b) * b + b"
proof -
  have e: "a div b * b + a mod b = a" by (rule div_mult_mod_eq)
  have "0 \<le> a mod b" using assms by simp
  with e show "(a div b) * b \<le> a" by linarith
  have "a mod b < b" using assms by simp
  with e show "a < (a div b) * b + b" by linarith
qed

lemma ceil_quotient:
  fixes t ps :: int
  assumes "1 \<le> t" "1 \<le> ps"
  shows "1 \<le> (t + ps - 1) div ps"
    and "((t + ps - 1) div ps - 1) * ps < t"
    and "t \<le> (t + ps - 1) div ps * ps"
proof -
  define z where "z = (t + ps - 1) div ps"
  have b: "0 < ps" using assms by simp
  have l: "z * ps \<le> t + ps - 1" and u: "t + ps - 1 < z * ps + ps"
    unfolding z_def using div_bounds [OF b, of "t + ps - 1"] by auto
  show "1 \<le> (t + ps - 1) div ps"
  proof (rule ccontr)
    assume "\<not> 1 \<le> (t + ps - 1) div ps"
    then have "z \<le> 0" by (simp add: z_def)
    then have "z * ps \<le> 0" using b by (simp add: mult_le_0_iff)
    with u assms show False by linarith
  qed
  show "((t + ps - 1) div ps - 1) * ps < t"
    using l by (simp add: algebra_simps z_def)
  show "t \<le> (t + ps - 1) div ps * ps"
    using u by (simp add: z_def)
qed

lemma total_pages_ceiling:
  assumes "1 \<le> t" "1 \<le> ps"
  shows "total_pages t ps = \<lceil>real_of_int t / real_of_int ps\<rceil>"
proof -
  define z where "z = (t + ps - 1) div ps"
  have b: "0 < ps" using assms by simp
  have zpos: "1 \<le> z" and l': "(z - 1) * ps < t" and u': "t \<le> z * ps"
    unfolding z_def using ceil_quotient [OF assms] by auto
  have "real_of_int ((z - 1) * ps) < real_of_int t" using l' by linarith
  then have 1: "real_of_int z - 1 < real_of_int t / real_of_int ps"
    using b by (simp add: pos_less_divide_eq)
  have "real_of_int t \<le> real_of_int (z * ps)" using u' by linarith
  then have 2: "real_of_int t / real_of_int ps \<le> real_of_int z"
    using b by (simp add: pos_divide_le_eq)
  have "\<lceil>real_of_int t / real_of_int ps\<rceil> = z"
    using 1 2 by (rule ceiling_unique)
  then show ?thesis using zpos by (simp add: total_pages_def z_def)
qed

lemma page_start_lt_total:
  assumes "1 \<le> t" "1 \<le> ps" "p \<le> total_pages t ps"
  shows "start p ps < t"
proof -
  define z where "z = (t + ps - 1) div ps"
  have b: "0 < ps" using assms by simp
  have zpos: "1 \<le> z" and l': "(z - 1) * ps < t"
    unfolding z_def using ceil_quotient [OF assms(1,2)] by auto
  have "p \<le> z" using assms(3) zpos by (simp add: total_pages_def z_def)
  then have "p - 1 \<le> z - 1" by simp
  then have "(p - 1) * ps \<le> (z - 1) * ps" using b by (simp add: mult_right_mono)
  also note l'
  finally show ?thesis by (simp add: start_def)
qed

lemma slice_nth:
  assumes "0 \<le> a" "a \<le> b" "b \<le> int (length xs)"
  shows "slice xs a b = map (\<lambda>i. xs ! i) [nat a..<nat b]"
proof -
  have "slice xs a b = take (nat b - nat a) (drop (nat a) xs)"
    using assms by (simp add: slice_def slice_index_def Let_def min_def)
  also have "\<dots> = map (\<lambda>i. xs ! i) [nat a..<nat b]"
  proof (rule nth_equalityI)
    show "length (take (nat b - nat a) (drop (nat a) xs)) = length (map ((!) xs) [nat a..<nat b])"
      using assms by auto
  next
    fix i assume "i < length (take (nat b - nat a) (drop (nat a) xs))"
    then show "take (nat b - nat a) (drop (nat a) xs) ! i = map ((!) xs) [nat a..<nat b] ! i"
      using assms by auto
  qed
  finally show ?thesis .
qed

subsection \<open>The retry loop\<close>

lemma request_simps [simp]:
  "requests (request ev w) = Suc (requests w)"
  "log (request ev w) = log w @ [ev]"
  "clock (request ev w) = clock w"
  "bytes_cache (request ev w) = bytes_cache w"
  "folder_name_cache (request ev w) = folder_name_cache w"
  "folders_cache (request ev w) = folders_cache w"
  "images_cache (request ev w) = images_cache w"
  by (simp_all add: request_def)

lemma sleep_simps [simp]:
  "requests (sleep d w) = requests w"
  "log (sleep d w) = log w @ [Sleep d]"
  "clock (sleep d w) = clock w + d"
  "bytes_cache (sleep d w) = bytes_cache w"
  "folder_name_cache (sleep d w) = folder_name_cache w"
  "folders_cache (sleep d w) = folders_cache w"
  "images_cache (sleep d w) = images_cache w"
  by (simp_all add: sleep_def)

lemma retry_loop_all_fail:
  assumes "\<forall>k<length rounds. attempt drive file_id (requests w + k) = Inl (e k)"
  shows "fst (retry_loop drive file_id rounds prev w)
           = Inl (if rounds = [] then raise_last prev else e (length rounds - 1))
       \<and> requests (snd (retry_loop drive file_id rounds prev w)) = requests w + length rounds
       \<and> filter is_attempt (log (snd (retry_loop drive file_id rounds prev w)))
           = filter is_attempt (log w) @ map (\<lambda>k. GetMedia file_id (Some (e k))) [0..<length rounds]
       \<and> bytes_cache (snd (retry_loop drive file_id rounds prev w)) = bytes_cache w"
  using assms
proof (induction rounds arbitrary: prev w e)
  case Nil
  then show ?case by simp
next
  case (Cons r rounds)
  from Cons.prems have a0: "attempt drive file_id (requests w) = Inl (e 0)" by auto
  define w1 where "w1 = sleep (spec_backoff (e 0)) (request (GetMedia file_id (Some (e 0))) w)"
  have step: "retry_loop drive file_id (r # rounds) prev w
      = retry_loop drive file_id rounds (Some (e 0)) w1"
    using a0 by (cases "e 0") (simp_all add: w1_def)
  have rq: "requests w1 = Suc (requests w)" by (simp add: w1_def)
  have "\<forall>k<length rounds. attempt drive file_id (requests w1 + k) = Inl (e (Suc k))"
    using Cons.prems rq by auto
  from Cons.IH [OF this, of "Some (e 0)"] have ih:
    "fst (retry_loop drive file_id rounds (Some (e 0)) w1)
       = Inl (if rounds = [] then raise_last (Some (e 0)) else e (Suc (length rounds - 1)))"
    "requests (snd (retry_loop drive file_id rounds (Some (e 0)) w1)) = requests w1 + length rounds"
    "filter is_attempt (log (snd (retry_loop drive file_id rounds (Some (e 0)) w1)))
       = filter is_attempt (log w1) @ map (\<lambda>k. GetMedia file_id (Some (e (Suc k)))) [0..<length rounds]"
    "bytes_cache (snd (retry_loop drive file_id rounds (Some (e 0)) w1)) = bytes_cache w1"
    by auto
  have m: "map (\<lambda>k. GetMedia file_id (Some (e k))) [0..<Suc (length rounds)]
      = GetMedia file_id (Some (e 0)) # map (\<lambda>k. GetMedia file_id (Some (e (Suc k)))) [0..<length rounds]"
    by (simp add: upt_rec [of 0] map_Suc_upt [symmetric] del: upt_Suc)
  have l: "filter is_attempt (log w1) = filter is_attempt (log w) @ [GetMedia file_id (Some (e 0))]"
    by (simp add: w1_def is_attempt_def)
  show ?case
    unfolding step using ih rq m l
    by (auto simp: raise_last_def w1_def)
qed

lemma retry_loop_trace:
  "\<exists>tr. log (snd (retry_loop drive file_id rounds prev w)) = log w @ tr \<and> rounds_trace tr"
proof (induction rounds arbitrary: prev w)
  case Nil
  then show ?case by simp
next
  case (Cons r rounds)
  show ?case
  proof (cases "attempt drive file_id (requests w)")
    case (Inr bs)
    then have "log (snd (retry_loop drive file_id (r # rounds) prev w)) = log w @ [GetMedia file_id None]"
      by simp
    moreover have "rounds_trace [GetMedia file_id None]" by simp
    ultimately show ?thesis by blast
  next
    case (Inl e)
    define w1 where "w1 = sleep (spec_backoff e) (request (GetMedia file_id (Some e)) w)"
    have step: "retry_loop drive file_id (r # rounds) prev w
        = retry_loop drive file_id rounds (Some e) w1"
      using Inl by (cases e) (simp_all add: w1_def)
    from Cons.IH [of "Some e" w1] obtain tr where
      tr: "log (snd (retry_loop drive file_id rounds (Some e) w1)) = log w1 @ tr" "rounds_trace tr"
      by blast
    have "log w1 = log w @ [GetMedia file_id (Some e), Sleep (spec_backoff e)]"
      by (simp add: w1_def)
    with tr have "log (snd (retry_loop drive file_id (r # rounds) prev w))
        = log w @ (GetMedia file_id (Some e) # Sleep (spec_backoff e) # tr)"
      unfolding step by simp
    moreover have "rounds_trace (GetMedia file_id (Some e) # Sleep (spec_backoff e) # tr)"
      using tr(2) by simp
    ultimately show ?thesis by blast
  qed
qed

lemma rounds_trace_backoff:
  "rounds_trace tr \<Longrightarrow> i < length tr \<Longrightarrow> tr ! i = GetMedia f (Some e)
     \<Longrightarrow> Suc i < length tr \<and> tr ! Suc i = Sleep (spec_backoff e)"
proof (induction tr arbitrary: i rule: rounds_trace.induct)
  case (3 f' e' d tr)
  show ?case
  proof (cases i)
    case 0
    with 3 show ?thesis by simp
  next
    case (Suc j)
    have "j \<noteq> 0"
    proof
      assume "j = 0"
      with Suc 3(4) show False by simp
    qed
    then obtain k where k: "j = Suc k" by (cases j) auto
    with Suc 3 have "k < length tr" "tr ! k = GetMedia f (Some e)" "rounds_trace tr" by auto
    from 3(1) [OF this(3) this(1) this(2)] show ?thesis using Suc k by simp
  qed
qed auto

lemma rounds_trace_sleep:
  "rounds_trace tr \<Longrightarrow> i < length tr \<Longrightarrow> tr ! i = Sleep d
     \<Longrightarrow> 0 < i \<and> (\<exists>f e. tr ! (i - 1) = GetMedia f (Some e) \<and> d = spec_backoff e)"
proof (induction tr arbitrary: i rule: rounds_trace.induct)
  case (3 f' e' d' tr)
  show ?case
  proof (cases i)
    case 0
    with 3 show ?thesis by simp
  next
    case (Suc j)
    show ?thesis
    proof (cases j)
      case 0
      with Suc 3 show ?thesis by simp
    next
      case (Suc k)
      with \<open>i = Suc j\<close> 3 have "k < length tr" "tr ! k = Sleep d" "rounds_trace tr" by auto
      from 3(1) [OF this(3) this(1) this(2)] show ?thesis using Suc \<open>i = Suc j\<close>
        by (cases k) auto
    qed
  qed
qed auto

lemma retry_loop_clock:
  "log (snd (retry_loop drive file_id rounds prev w)) = log w @ tr
     \<Longrightarrow> clock (snd (retry_loop drive file_id rounds prev w)) = clock w + slept tr"
proof (induction rounds arbitrary: prev w tr)
  case Nil
  then show ?case by simp
next
  case (Cons r rounds)
  show ?case
  proof (cases "attempt drive file_id (requests w)")
    case (Inr bs)
    with Cons.prems show ?thesis by auto
  next
    case (Inl e)
    define w1 where "w1 = sleep (spec_backoff e) (request (GetMedia file_id (Some e)) w)"
    have step: "retry_loop drive file_id (r # rounds) prev w
        = retry_loop drive file_id rounds (Some e) w1"
      using Inl by (cases e) (simp_all add: w1_def)
    obtain tr' where tr': "log (snd (retry_loop drive file_id rounds (Some e) w1)) = log w1 @ tr'"
      using retry_loop_trace by blast
    have l1: "log w1 = log w @ [GetMedia file_id (Some e), Sleep (spec_backoff e)]"
      by (simp add: w1_def)
    from Cons.prems tr' l1 have tr: "tr = GetMedia file_id (Some e) # Sleep (spec_backoff e) # tr'"
      unfolding step by simp
    from Cons.IH [OF tr'] have "clock (snd (retry_loop drive file_id rounds (Some e) w1)) = clock w1 + slept tr'" .
    then show ?thesis unfolding step tr by (simp add: w1_def)
  qed
qed

subsection \<open>Placing cells into columns\<close>

lemma length_outcomes [simp]: "length (outcomes drive pil max_size images w) = length images"
  by (induction images arbitrary: w) (auto split: prod.splits)

lemma length_place [simp]: "length (place c n xs columns) = length columns"
  by (induction xs arbitrary: n columns) auto

lemma list_index_mod:
  assumes "0 < cols" "length columns = nat cols"
  shows "list_index columns (int i mod cols) = Inr (i mod nat cols)"
proof -
  have "int i mod cols = int (i mod nat cols)"
    using assms(1) by (simp add: zmod_int)
  moreover have "i mod nat cols < nat cols" using assms(1) by simp
  then have "int (i mod nat cols) < cols" using assms(1) by linarith
  ultimately show ?thesis
    using assms by (simp add: list_index_def Let_def)
qed

lemma render_loop_place:
  assumes "0 < cols" "length columns = nat cols"
  shows "fst (render_loop drive pil max_size cols (enumerate n images) columns w)
       = Inr (place (nat cols) n
                (map2 render_cell images (outcomes drive pil max_size images w)) columns)"
  using assms(2)
proof (induction images arbitrary: n columns w)
  case Nil
  then show ?case by simp
next
  case (Cons img images)
  obtain r w' where l: "load_thumbnail drive pil max_size img w = (r, w')"
    by (cases "load_thumbnail drive pil max_size img w") auto
  let ?k = "n mod nat cols"
  let ?cs = "columns[?k := columns ! ?k @ [render_cell img r]]"
  have len: "length ?cs = nat cols" using Cons.prems by simp
  have idx: "list_index columns (int n mod cols) = Inr ?k"
    by (rule list_index_mod [OF assms(1) Cons.prems])
  have "fst (render_loop drive pil max_size cols (enumerate n (img # images)) columns w)
      = fst (render_loop drive pil max_size cols (enumerate (Suc n) images) ?cs w')"
    using assms(1) idx l by simp
  also have "\<dots> = Inr (place (nat cols) (Suc n)
                (map2 render_cell images (outcomes drive pil max_size images w')) ?cs)"
    by (rule Cons.IH [OF len])
  finally show ?case using l by simp
qed

lemma mset_concat_append_at:
  "k < length columns \<Longrightarrow>
     mset (concat (columns[k := columns ! k @ [x]])) = mset (concat columns) + {#x#}"
proof (induction columns arbitrary: k)
  case Nil
  then show ?case by simp
next
  case (Cons col columns)
  then show ?case by (cases k) auto
qed

lemma place_mset:
  "0 < c \<Longrightarrow> length columns = c \<Longrightarrow>
     mset (concat (place c n xs columns)) = mset (concat columns) + mset xs"
proof (induction xs arbitrary: n columns)
  case Nil
  then show ?case by simp
next
  case (Cons x xs)
  have k: "n mod c < length columns" using Cons.prems by simp
  have "length (columns[n mod c := columns ! (n mod c) @ [x]]) = c" using Cons.prems by simp
  from Cons.IH [OF Cons.prems(1) this] mset_concat_append_at [OF k]
  show ?case by simp
qed

lemma place_keeps:
  "k < length columns \<Longrightarrow> r < length (columns ! k) \<Longrightarrow>
     r < length (place c n xs columns ! k) \<and> place c n xs columns ! k ! r = columns ! k ! r"
proof (induction xs arbitrary: n columns)
  case Nil
  then show ?case by simp
next
  case (Cons x xs)
  let ?m = "n mod c"
  let ?cs = "columns[?m := columns ! ?m @ [x]]"
  have 1: "k < length ?cs" using Cons.prems by simp
  have 2: "r < length (?cs ! k)"
    using Cons.prems by (cases "k = ?m") auto
  have 3: "?cs ! k ! r = columns ! k ! r"
    using Cons.prems by (cases "k = ?m") (auto simp: nth_append)
  from Cons.IH [OF 1 2] 3 show ?case by simp
qed

lemma row_of_next:
  fixes c n :: nat
  assumes "0 < c"
  shows "(n + c - Suc (n mod c)) div c = n div c"
proof -
  have "n = n div c * c + n mod c" by simp
  then have "n + c - Suc (n mod c) = (c - 1) + n div c * c"
    using assms by linarith
  moreover have "((c - 1) + n div c * c) div c = n div c"
    using assms by (simp only: div_mult_self1 div_mult_self3) simp
  ultimately show ?thesis by simp
qed

lemma other_column_unchanged:
  fixes c n k :: nat
  assumes "0 < c" "k < c" "k \<noteq> n mod c"
  shows "(n + c - k) div c = (n + c - Suc k) div c"
proof -
  let ?m = "n mod c"
  have m: "?m < c" using assms(1) by simp
  have e: "Suc (n + c - Suc k) = n + (c - k)" using assms(2) by linarith
  have "(n + (c - k)) mod c = (?m + (c - k)) mod c"
    by (simp add: mod_add_left_eq)
  moreover have "(?m + (c - k)) mod c \<noteq> 0"
  proof (cases "?m + (c - k) < c")
    case True
    then have "(?m + (c - k)) mod c = ?m + (c - k)" by simp
    then show ?thesis using assms(2) by simp
  next
    case False
    then have "(?m + (c - k)) mod c = (?m + (c - k) - c) mod c"
      by (simp add: le_mod_geq)
    moreover have "?m + (c - k) - c = ?m - k" using assms(2) by linarith
    moreover have "?m - k < c" using m by linarith
    moreover have "?m - k \<noteq> 0" using False assms(2,3) by linarith
    ultimately show ?thesis by simp
  qed
  ultimately have "Suc (n + c - Suc k) mod c \<noteq> 0" using e by simp
  then have "Suc (n + c - Suc k) div c = (n + c - Suc k) div c"
    by (simp only: div_Suc if_False)
  moreover have "n + c - k = Suc (n + c - Suc k)" using assms(2) by linarith
  ultimately show ?thesis by (simp only:)
qed

lemma same_column_grows:
  fixes c n :: nat
  assumes "0 < c"
  shows "(n + c - n mod c) div c = Suc (n div c)"
proof -
  have "n = n div c * c + n mod c" by simp
  then have "n + c - n mod c = c + n div c * c"
    using assms by linarith
  moreover have "(c + n div c * c) div c = Suc (n div c)"
    using assms by simp
  ultimately show ?thesis by (simp only:)
qed

lemma filled_step:
  assumes "0 < c" "filled c n columns"
  shows "filled c (Suc n) (columns[n mod c := columns ! (n mod c) @ [x]])"
proof -
  let ?m = "n mod c"
  have m: "?m < c" using assms(1) by simp
  have len: "length columns = c" using assms(2) by (simp add: filled_def)
  have "length ((columns[?m := columns ! ?m @ [x]]) ! k) = (Suc n + c - Suc k) div c"
    if "k < c" for k
  proof (cases "k = ?m")
    case True
    then have "length ((columns[?m := columns ! ?m @ [x]]) ! k) = Suc (length (columns ! ?m))"
      using m len by simp
    also have "\<dots> = Suc ((n + c - Suc ?m) div c)"
      using assms(2) m by (simp add: filled_def)
    also have "\<dots> = Suc (n div c)" by (simp add: row_of_next [OF assms(1)])
    also have "\<dots> = (Suc n + c - Suc ?m) div c" by (simp add: same_column_grows [OF assms(1)])
    finally show ?thesis using True by simp
  next
    case False
    then have "length ((columns[?m := columns ! ?m @ [x]]) ! k) = length (columns ! k)"
      by simp
    also have "\<dots> = (n + c - Suc k) div c"
      using assms(2) that by (simp add: filled_def)
    also have "\<dots> = (Suc n + c - Suc k) div c"
      using other_column_unchanged [OF assms(1) that False] by simp
    finally show ?thesis .
  qed
  then show ?thesis using len by (simp add: filled_def)
qed

lemma place_filled:
  "0 < c \<Longrightarrow> filled c n columns \<Longrightarrow> filled c (n + length xs) (place c n xs columns)"
proof (induction xs arbitrary: n columns)
  case Nil
  then show ?case by simp
next
  case (Cons x xs)
  from Cons.IH [OF Cons.prems(1) filled_step [OF Cons.prems]]
  show ?case by simp
qed

lemma place_nth:
  "0 < c \<Longrightarrow> filled c n columns \<Longrightarrow> i < length xs \<Longrightarrow>
     (n + i) div c < length (place c n xs columns ! ((n + i) mod c))
     \<and> place c n xs columns ! ((n + i) mod c) ! ((n + i) div c) = xs ! i"
proof (induction xs arbitrary: n columns i)
  case Nil
  then show ?case by simp
next
  case (Cons x xs)
  let ?m = "n mod c"
  let ?cs = "columns[?m := columns ! ?m @ [x]]"
  have m: "?m < c" using Cons.prems(1) by simp
  have len: "length columns = c" using Cons.prems(2) by (simp add: filled_def)
  have f: "filled c (Suc n) ?cs" by (rule filled_step [OF Cons.prems(1,2)])
  show ?case
  proof (cases i)
    case 0
    have l: "length (columns ! ?m) = n div c"
      using Cons.prems(2) m by (simp add: filled_def row_of_next [OF Cons.prems(1)])
    have 1: "?m < length ?cs" using m len by simp
    have 2: "n div c < length (?cs ! ?m)" using m len l by simp
    have 3: "?cs ! ?m ! (n div c) = x" using m len l by (simp add: nth_append)
    from place_keeps [OF 1 2, of c "Suc n" xs] 3 show ?thesis using 0 by simp
  next
    case (Suc j)
    then have "j < length xs" using Cons.prems(3) by simp
    from Cons.IH [OF Cons.prems(1) f this] show ?thesis using Suc by simp
  qed
qed

lemma filled_empty: "0 < c \<Longrightarrow> filled c 0 (replicate c [])"
  by (simp add: filled_def)

lemma render_gallery_columns:
  assumes "0 < cols"
  shows "fst (render_gallery drive pil images cols max_size w)
       = Inr (place (nat cols) 0
                (map2 render_cell images (outcomes drive pil max_size images w))
                (replicate (nat cols) []))"
proof -
  have "length (replicate (nat cols) ([] :: 'a element list list)) = nat cols" by simp
  from render_loop_place [OF assms this]
  show ?thesis using assms by (simp add: render_gallery_def st_columns_def)
qed

lemma all_but_one:
  assumes "j < length cells" "\<not> P (cells ! j)" "\<forall>i<length cells. i \<noteq> j \<longrightarrow> P (cells ! i)"
  shows "filter (\<lambda>c. \<not> P c) cells = [cells ! j]"
    and "length (filter P cells) = length cells - 1"
proof -
  have split: "cells = take j cells @ cells ! j # drop (Suc j) cells"
    using assms(1) by (rule id_take_nth_drop)
  have a: "\<forall>x\<in>set (take j cells). P x"
  proof
    fix x assume "x \<in> set (take j cells)"
    then obtain i where "i < length (take j cells)" "take j cells ! i = x"
      by (auto simp: in_set_conv_nth)
    then have "i < j" "i < length cells" "cells ! i = x" using assms(1) by auto
    with assms(3) show "P x" by auto
  qed
  have b: "\<forall>x\<in>set (drop (Suc j) cells). P x"
  proof
    fix x assume "x \<in> set (drop (Suc j) cells)"
    then obtain i where "i < length (drop (Suc j) cells)" "drop (Suc j) cells ! i = x"
      by (auto simp: in_set_conv_nth)
    then have "Suc j + i < length cells" "cells ! (Suc j + i) = x" "Suc j + i \<noteq> j"
      using assms(1) by auto
    with assms(3) show "P x" by blast
  qed
  have fa: "filter (\<lambda>c. \<not> P c) (take j cells) = []" "filter P (take j cells) = take j cells"
    using a by (auto simp: filter_empty_conv filter_id_conv)
  have fb: "filter (\<lambda>c. \<not> P c) (drop (Suc j) cells) = []"
      "filter P (drop (Suc j) cells) = drop (Suc j) cells"
    using b by (auto simp: filter_empty_conv filter_id_conv)
  have "filter (\<lambda>c. \<not> P c) cells
      = filter (\<lambda>c. \<not> P c) (take j cells @ cells ! j # drop (Suc j) cells)"
    using split by simp
  also have "\<dots> = [cells ! j]" using fa fb assms(2) by simp
  finally show "filter (\<lambda>c. \<not> P c) cells = [cells ! j]" .
  have "length (filter P cells)
      = length (filter P (take j cells @ cells ! j # drop (Suc j) cells))"
    using split by simp
  also have "\<dots> = length (take j cells) + length (drop (Suc j) cells)"
    using fa fb assms(2) by simp
  also have "\<dots> = length cells - 1" using assms(1) by simp
  finally show "length (filter P cells) = length cells - 1" .
qed

lemma example_outcomes:
  "outcomes example_drive example_pil (2000, 2000) example_page fresh_world
     = [Inr ''JPEG f1'', Inl (SSLError ''handshake''), Inr ''JPEG f3'']"
  by code_simp

subsection \<open>The cache\<close>





















lemma snd_case_result [simp]: "snd (case p of (r, w) \<Rightarrow> (g r, w)) = snd p"
  by (cases p) simp

lemma fst_case_result [simp]: "fst (case p of (r, w) \<Rightarrow> (g r, w)) = g (fst p)"
  by (cases p) simp


lemma cache_data_clear_simps [simp]:
  "folder_name_cache (cache_data_clear w) = Map.empty"
  "folders_cache (cache_data_clear w) = Map.empty"
  "images_cache (cache_data_clear w) = Map.empty"
  "bytes_cache (cache_data_clear w) = Map.empty"
  "clock (cache_data_clear w) = clock w"
  "requests (cache_data_clear w) = requests w"
  by (simp_all add: cache_data_clear_def)











subsection \<open>The page input\<close>

lemma total_pages_ge1: "1 \<le> total_pages t ps"
  by (simp add: total_pages_def)

lemma widget_distinct [simp]:
  "cols_slider \<noteq> page_size_slider" "cols_slider \<noteq> page_input m"
  "page_size_slider \<noteq> page_input m" "page_size_slider \<noteq> cols_slider"
  "page_input m \<noteq> cols_slider" "page_input m \<noteq> page_size_slider"
  "page_input m = page_input n \<longleftrightarrow> m = n"
  by (simp_all add: cols_slider_def page_size_slider_def page_input_def)

lemma page_input_simps [simp]:
  "default_value (page_input m) = 1" "min_value (page_input m) = 1"
  "max_value (page_input m) = m"
  by (simp_all add: page_input_def)

lemma sidebar_controls_values:
  "cols_value (fst (sidebar_controls ss t)) = widget_value ss cols_slider"
  "page_size_value (fst (sidebar_controls ss t)) = widget_value ss page_size_slider"
  "total_pages_value (fst (sidebar_controls ss t))
     = total_pages t (widget_value ss page_size_slider)"
  "page_value (fst (sidebar_controls ss t))
     = widget_value ss (page_input (total_pages t (widget_value ss page_size_slider)))"
  by (simp_all add: sidebar_controls_def Let_def)

lemma sidebar_controls_state:
  "snd (sidebar_controls ss t) wd
     = (if wd = cols_slider \<or> wd = page_size_slider
           \<or> wd = page_input (total_pages t (widget_value ss page_size_slider))
        then ss wd else None)"
  by (simp add: sidebar_controls_def Let_def)

section \<open>The claims\<close>

text \<open>
  C1. Retry bound. When every attempt at the download of a file raises, the function
  makes exactly three attempts (three requests, three attempts in the trace, each with
  the exception it raised) and raises the exception of the third. Through the cache
  decorator, on a file with no stored bytes, the call is that same run: the exception
  goes to the caller and nothing is stored.
\<close>

theorem download_retry_bound:
  assumes "\<forall>k<3. attempt drive file_id (requests w + k) = Inl (e k)"
  shows "fst (download_image_bytes_wrapped drive file_id w) = Inl (e 2)
       \<and> requests (snd (download_image_bytes_wrapped drive file_id w)) = requests w + 3
       \<and> filter is_attempt (log (snd (download_image_bytes_wrapped drive file_id w)))
           = filter is_attempt (log w)
               @ [GetMedia file_id (Some (e 0)), GetMedia file_id (Some (e 1)),
                  GetMedia file_id (Some (e 2))]
       \<and> (bytes_cache w file_id = None \<longrightarrow>
            download_image_bytes drive file_id w = download_image_bytes_wrapped drive file_id w)"
proof -
  let ?r = "download_image_bytes_wrapped drive file_id w"
  have len: "length [0..<3::nat] = 3" by simp
  have "\<forall>k<length [0..<3::nat]. attempt drive file_id (requests w + k) = Inl (e k)"
    using assms by simp
  from retry_loop_all_fail [OF this, of None] have r:
    "fst ?r = Inl (e 2)" "requests (snd ?r) = requests w + 3"
    "filter is_attempt (log (snd ?r))
       = filter is_attempt (log w) @ map (\<lambda>k. GetMedia file_id (Some (e k))) [0..<3]"
    unfolding download_image_bytes_wrapped_def len by simp_all
  have m: "map (\<lambda>k. GetMedia file_id (Some (e k))) [0..<3]
      = [GetMedia file_id (Some (e 0)), GetMedia file_id (Some (e 1)), GetMedia file_id (Some (e 2))]"
  proof -
    have "[0..<3::nat] = [0, 1, 2]" by code_simp
    then show ?thesis by simp
  qed
  have c: "download_image_bytes drive file_id w = ?r" if "bytes_cache w file_id = None"
  proof -
    obtain x w' where x: "?r = (x, w')" by (cases ?r) auto
    with r(1) have "x = Inl (e 2)" by simp
    with x that show ?thesis
      by (simp add: download_image_bytes_def cache_data_def cache_read_def)
  qed
  from r m c show ?thesis by simp
qed

theorem download_retry_bound_witness:
  "fst (download_image_bytes_wrapped failing_drive ''f1'' fresh_world) = Inl (SSLError ''eof'')
   \<and> requests (snd (download_image_bytes_wrapped failing_drive ''f1'' fresh_world)) = 3
   \<and> download_image_bytes failing_drive ''f1'' fresh_world
       = download_image_bytes_wrapped failing_drive ''f1'' fresh_world"
proof -
  let ?e = "\<lambda>k::nat. if k = 0 then SSLError ''handshake''
              else if k = 1 then OtherError ''reset'' else SSLError ''eof''"
  have h: "\<forall>k<3. attempt failing_drive ''f1'' (requests fresh_world + k) = Inl (?e k)"
    by (simp add: attempt_def failing_drive_def fresh_world_def)
  have c: "bytes_cache fresh_world ''f1'' = None" by (simp add: fresh_world_def)
  have q: "requests fresh_world = 0" by (simp add: fresh_world_def)
  from download_retry_bound [OF h] c q show ?thesis by simp
qed




text \<open>
  C3. Pagination. For a session with at least one image (the script stops before this
  point when there is none), a page size of at least 1 and a page number in
  \<open>1..total_pages\<close>, the number of pages is the ceiling of \<open>total / page_size\<close>, the
  slice starts at \<open>(page - 1) * page_size\<close>, ends at \<open>min (start + page_size) total\<close>, is
  not empty, lies inside the list, and the page shown is exactly the images at the
  indices \<open>start..<end\<close>. For 95 images, 30 per page, page 2: the slice is \<open>[30, 60)\<close>
  and there are 4 pages.
\<close>

theorem pagination_slice:
  assumes "images \<noteq> []" and "1 \<le> page_size" and "1 \<le> page"
    and "page \<le> total_pages (int (length images)) page_size"
  shows "total_pages (int (length images)) page_size
           = \<lceil>real (length images) / real_of_int page_size\<rceil>
       \<and> start page page_size = (page - 1) * page_size
       \<and> end' page page_size (int (length images))
           = min (start page page_size + page_size) (int (length images))
       \<and> 0 \<le> start page page_size
       \<and> start page page_size < end' page page_size (int (length images))
       \<and> end' page page_size (int (length images)) \<le> int (length images)
       \<and> images_page images page page_size
           = map (\<lambda>i. images ! i)
               [nat (start page page_size)..<nat (end' page page_size (int (length images)))]
       \<and> total_pages 95 30 = 4 \<and> start 2 30 = 30 \<and> end' 2 30 95 = 60"
proof -
  let ?t = "int (length images)"
  have t: "1 \<le> ?t" using assms(1) by (cases images) auto
  have c: "total_pages ?t page_size = \<lceil>real (length images) / real_of_int page_size\<rceil>"
    using total_pages_ceiling [OF t assms(2)] by simp
  have s0: "0 \<le> start page page_size"
    using assms(2,3) by (simp add: start_def)
  have lt: "start page page_size < ?t"
    by (rule page_start_lt_total [OF t assms(2) assms(4)])
  have se: "start page page_size < end' page page_size ?t"
    using lt assms(2) by (simp add: end'_def)
  have e: "end' page page_size ?t \<le> ?t"
    by (simp add: end'_def)
  have sl: "images_page images page page_size
      = map (\<lambda>i. images ! i) [nat (start page page_size)..<nat (end' page page_size ?t)]"
    unfolding images_page_def using s0 se e by (intro slice_nth) auto
  have ex: "total_pages 95 30 = 4 \<and> start 2 30 = 30 \<and> end' 2 30 95 = 60"
    by (simp add: total_pages_def start_def end'_def)
  show ?thesis
    using c s0 se e sl ex by (simp add: start_def end'_def)
qed

theorem pagination_slice_witness:
  "images_page [0..<95] 2 30 = map (\<lambda>i. [0..<95] ! i) [30..<60]
   \<and> total_pages (int (length [0..<95])) 30 = \<lceil>real (length [0..<95]) / real_of_int 30\<rceil>"
proof -
  have h1: "[0..<95] \<noteq> []" by simp
  have h2: "(1::int) \<le> 30" by simp
  have h3: "(1::int) \<le> 2" by simp
  have h4: "2 \<le> total_pages (int (length [0..<95])) 30" by (simp add: total_pages_def)
  have s: "nat (start 2 30) = 30" by (simp add: start_def)
  have e: "nat (end' 2 30 (int (length [0..<95]))) = 60" by (simp add: end'_def start_def)
  from pagination_slice [OF h1 h2 h3 h4] show ?thesis
    unfolding s e by blast
qed

text \<open>
  C4, as stated: after a change of the page size the page is not reset; when it
  exceeds the new number of pages it becomes that number. With 95 images a user sets
  10 per page and goes to page 10 of 10, then sets 30 per page: there are 4 pages, and
  the page is 1, not 4.
\<close>

theorem page_reset_counterexample:
  "total_pages_value (fst (session [(page_size_slider, 10), (page_input 10, 10)] 95 Map.empty)) = 10
   \<and> page_value (fst (session [(page_size_slider, 10), (page_input 10, 10)] 95 Map.empty)) = 10
   \<and> total_pages_value (fst (session
         [(page_size_slider, 10), (page_input 10, 10), (page_size_slider, 30)] 95 Map.empty)) = 4
   \<and> page_value (fst (session
         [(page_size_slider, 10), (page_input 10, 10), (page_size_slider, 30)] 95 Map.empty)) = 1"
  by code_simp

text \<open>
  C4, amended: after any change of the page size or of the column count, the page
  lies between 1 and the number of pages computed from the new page size. The page is
  the one selected before when the number of pages is the same as before (so after
  every change of the column count), and it is 1 when the number of pages has changed.
\<close>

theorem page_after_control_change:
  assumes "in_range ss" and "10 \<le> ps" and "ps \<le> 100" and "2 \<le> c" and "c \<le> 6"
  shows "1 \<le> page_value (fst (sidebar_controls
                 (user_sets page_size_slider ps (snd (sidebar_controls ss t))) t))
     \<and> page_value (fst (sidebar_controls
                 (user_sets page_size_slider ps (snd (sidebar_controls ss t))) t))
         \<le> total_pages_value (fst (sidebar_controls
                 (user_sets page_size_slider ps (snd (sidebar_controls ss t))) t))
     \<and> total_pages_value (fst (sidebar_controls
                 (user_sets page_size_slider ps (snd (sidebar_controls ss t))) t))
         = total_pages t ps
     \<and> page_value (fst (sidebar_controls
                 (user_sets page_size_slider ps (snd (sidebar_controls ss t))) t))
         = (if total_pages t ps = total_pages_value (fst (sidebar_controls ss t))
            then page_value (fst (sidebar_controls ss t)) else 1)
     \<and> total_pages_value (fst (sidebar_controls
                 (user_sets cols_slider c (snd (sidebar_controls ss t))) t))
         = total_pages_value (fst (sidebar_controls ss t))
     \<and> page_value (fst (sidebar_controls
                 (user_sets cols_slider c (snd (sidebar_controls ss t))) t))
         = page_value (fst (sidebar_controls ss t))"
proof -
  let ?ps0 = "widget_value ss page_size_slider"
  let ?tp0 = "total_pages t ?ps0"
  let ?s1 = "snd (sidebar_controls ss t)"
  let ?s2 = "user_sets page_size_slider ps ?s1"
  let ?s3 = "user_sets cols_slider c ?s1"
  have v2: "widget_value ?s2 page_size_slider = ps"
    by (simp add: widget_value_def user_sets_def)
  have p2: "widget_value ?s2 (page_input (total_pages t ps))
      = (if total_pages t ps = ?tp0 then widget_value ss (page_input ?tp0) else 1)"
    by (simp add: widget_value_def user_sets_def sidebar_controls_state split: option.splits)
  have lo: "1 \<le> widget_value ss (page_input ?tp0)"
    and hi: "widget_value ss (page_input ?tp0) \<le> ?tp0"
    using assms(1) total_pages_ge1 [of t ?ps0]
    by (force simp: widget_value_def in_range_def split: option.splits)+
  have v3: "widget_value ?s3 page_size_slider = ?ps0"
    by (simp add: widget_value_def user_sets_def sidebar_controls_state split: option.splits)
  have p3: "widget_value ?s3 (page_input ?tp0) = widget_value ss (page_input ?tp0)"
    by (simp add: widget_value_def user_sets_def sidebar_controls_state split: option.splits)
  show ?thesis
    using lo hi total_pages_ge1 [of t ps]
    by (simp add: sidebar_controls_values v2 p2 v3 p3)
qed

theorem page_after_control_change_witness:
  "in_range example_state \<and> (10::int) \<le> 30 \<and> (30::int) \<le> 100 \<and> (2::int) \<le> 2 \<and> (2::int) \<le> 6
   \<and> page_value (fst (sidebar_controls example_state 95)) = 10
   \<and> page_value (fst (sidebar_controls
        (user_sets page_size_slider 30 (snd (sidebar_controls example_state 95))) 95)) = 1
   \<and> page_value (fst (sidebar_controls
        (user_sets cols_slider 2 (snd (sidebar_controls example_state 95))) 95)) = 10"
proof -
  have h1: "in_range example_state"
    by (auto simp: in_range_def example_state_def page_size_slider_def page_input_def
        split: if_splits)
  have h2: "(10::int) \<le> 30" and h3: "(30::int) \<le> 100" and h4: "(2::int) \<le> 2"
    and h5: "(2::int) \<le> 6" by simp_all
  have b: "page_value (fst (sidebar_controls example_state 95)) = 10" by code_simp
  have t0: "total_pages_value (fst (sidebar_controls example_state 95)) = 10" by code_simp
  have t1: "total_pages 95 30 = 4" by code_simp
  from page_after_control_change [OF h1 h2 h3 h4 h5, of 95] h1 b t0 t1
  show ?thesis by simp
qed

text \<open>
  C5. Failure isolation. On a page of \<open>N\<close> images where the fetch or decode of
  exactly one image raises, the renderer returns a page (no exception leaves it) with
  \<open>N - 1\<close> image cells and exactly one other cell: the error with the name of that
  image, and the text of the exception.
\<close>

theorem gallery_failure_isolation:
  assumes "0 < cols" and "j < length images"
    and "outcomes drive pil max_size images w ! j = Inl e"
    and "\<forall>i<length images. i \<noteq> j \<longrightarrow> (\<exists>t. outcomes drive pil max_size images w ! i = Inr t)"
  shows "\<exists>columns. fst (render_gallery drive pil images cols max_size w) = Inr columns
     \<and> length (filter is_image_cell (concat columns)) = length images - 1
     \<and> filter (\<lambda>cell. \<not> is_image_cell cell) (concat columns)
         = [[StError (''Failed to load: '' @ name (images ! j)), StCaption (str_exn e)]]"
proof -
  let ?c = "nat cols"
  let ?outs = "outcomes drive pil max_size images w"
  let ?cells = "map2 render_cell images ?outs"
  let ?columns = "place ?c 0 ?cells (replicate ?c [])"
  have c: "0 < ?c" using assms(1) by simp
  have r: "fst (render_gallery drive pil images cols max_size w) = Inr ?columns"
    by (rule render_gallery_columns [OF assms(1)])
  have n: "length ?cells = length images" by simp
  have j: "j < length ?cells" using assms(2) by simp
  have cj: "?cells ! j = [StError (''Failed to load: '' @ name (images ! j)), StCaption (str_exn e)]"
    using assms(2,3) by (simp add: render_cell_def)
  have bad: "\<not> is_image_cell (?cells ! j)" unfolding cj by simp
  have good: "\<forall>i<length ?cells. i \<noteq> j \<longrightarrow> is_image_cell (?cells ! i)"
  proof (intro allI impI)
    fix i assume i: "i < length ?cells" "i \<noteq> j"
    then obtain t where "?outs ! i = Inr t" using assms(4) by auto
    then show "is_image_cell (?cells ! i)" using i by (simp add: render_cell_def)
  qed
  have m: "mset (concat ?columns) = mset ?cells"
    using place_mset [OF c, of "replicate ?c []" 0 ?cells] by simp
  have "mset (filter (\<lambda>cell. \<not> is_image_cell cell) (concat ?columns))
      = mset (filter (\<lambda>cell. \<not> is_image_cell cell) ?cells)"
    using m by (simp only: mset_filter)
  also have "\<dots> = {#?cells ! j#}"
    using all_but_one(1) [OF j bad good] by simp
  finally have e1: "filter (\<lambda>cell. \<not> is_image_cell cell) (concat ?columns) = [?cells ! j]"
    by (simp only: mset_single_iff)
  have "mset (filter is_image_cell (concat ?columns)) = mset (filter is_image_cell ?cells)"
    using m by (simp only: mset_filter)
  then have "length (filter is_image_cell (concat ?columns)) = length (filter is_image_cell ?cells)"
    by (rule mset_eq_length)
  also have "\<dots> = length images - 1"
    using all_but_one(2) [OF j bad good] n by simp
  finally have e2: "length (filter is_image_cell (concat ?columns)) = length images - 1" .
  from r e1 e2 cj show ?thesis by simp
qed

theorem gallery_failure_isolation_witness:
  "(0::int) < 2 \<and> 1 < length example_page
   \<and> (\<exists>columns.
        fst (render_gallery example_drive example_pil example_page 2 (2000, 2000) fresh_world)
          = Inr columns
        \<and> length (filter is_image_cell (concat columns)) = 2
        \<and> filter (\<lambda>cell. \<not> is_image_cell cell) (concat columns)
            = [[StError ''Failed to load: b.jpg'', StCaption ''handshake'']])"
proof -
  let ?outs = "outcomes example_drive example_pil (2000, 2000) example_page fresh_world"
  have h1: "(0::int) < 2" by simp
  have n: "length example_page = 3" by (simp add: example_page_def)
  have h2: "1 < length example_page" using n by simp
  have h3: "?outs ! 1 = Inl (SSLError ''handshake'')" by (simp add: example_outcomes)
  have h4: "\<forall>i<length example_page. i \<noteq> 1 \<longrightarrow> (\<exists>t. ?outs ! i = Inr t)"
  proof (intro allI impI)
    fix i assume "i < length example_page" "i \<noteq> 1"
    then have "i = 0 \<or> i = 2" using n by auto
    then show "\<exists>t. ?outs ! i = Inr t" by (auto simp: example_outcomes)
  qed
  have b: "name (example_page ! 1) = ''b.jpg''" by (simp add: example_page_def)
  from gallery_failure_isolation [OF h1 h2 h3 h4] h1 h2 n b show ?thesis by simp
qed

text \<open>
  C6. Sort. The script sorts the listed sessions before it filters them. The sorted
  list holds the same sessions, is in descending order of name, and keeps sessions of
  equal name in their listed order; the filter that follows keeps the descending
  order. The names 2024-01-10, 2024-03-05, 2023-12-01 come out as 2024-03-05,
  2024-01-10, 2023-12-01.
\<close>

theorem sort_sessions_descending:
  "mset (sort_sessions sessions) = mset sessions
   \<and> sorted_wrt (\<lambda>a b. name b \<le> name a) (sort_sessions sessions)
   \<and> (\<forall>k. filter (\<lambda>s. name s = k) (sort_sessions sessions) = filter (\<lambda>s. name s = k) sessions)
   \<and> sorted_wrt (\<lambda>a b. name b \<le> name a) (filter_sessions text (sort_sessions sessions))
   \<and> map name (sort_sessions
        [\<lparr>id' = ''f1'', name = ''2024-01-10'', mimeType = None\<rparr>,
         \<lparr>id' = ''f2'', name = ''2024-03-05'', mimeType = None\<rparr>,
         \<lparr>id' = ''f3'', name = ''2023-12-01'', mimeType = None\<rparr>])
       = [''2024-03-05'', ''2024-01-10'', ''2023-12-01'']"
proof -
  have d: "sorted_wrt (\<lambda>a b. name b \<le> name a) (sort_sessions sessions)"
    unfolding sort_sessions_def by (rule sorted_reverse_desc)
  have f: "sorted_wrt (\<lambda>a b. name b \<le> name a) (filter_sessions text (sort_sessions sessions))"
    using d by (simp add: filter_sessions_def Let_def sorted_wrt_filter)
  have x: "map name (sort_sessions
        [\<lparr>id' = ''f1'', name = ''2024-01-10'', mimeType = None\<rparr>,
         \<lparr>id' = ''f2'', name = ''2024-03-05'', mimeType = None\<rparr>,
         \<lparr>id' = ''f3'', name = ''2023-12-01'', mimeType = None\<rparr>])
       = [''2024-03-05'', ''2024-01-10'', ''2023-12-01'']"
    by code_simp
  show ?thesis
    using d f x by (simp add: sort_sessions_def sorted_reverse_mset sorted_reverse_stable)
qed




text \<open>
  C8. Backoff. The trace a download adds to the log: every attempt that raised an
  \<open>SSLError\<close> is followed at once by a sleep of 0.8, every attempt that raised
  any other exception by a sleep of 0.5, whatever the file, the message or the round;
  there is no other sleep, and the clock advances by the time slept.
\<close>

theorem retry_backoff_by_error_class:
  "\<exists>tr. log (snd (download_image_bytes_wrapped drive file_id w)) = log w @ tr
     \<and> clock (snd (download_image_bytes_wrapped drive file_id w)) = clock w + slept tr
     \<and> (\<forall>i<length tr. \<forall>f m. tr ! i = GetMedia f (Some (SSLError m))
           \<longrightarrow> Suc i < length tr \<and> tr ! Suc i = Sleep (8 / 10))
     \<and> (\<forall>i<length tr. \<forall>f m. tr ! i = GetMedia f (Some (OtherError m))
           \<longrightarrow> Suc i < length tr \<and> tr ! Suc i = Sleep (5 / 10))
     \<and> (\<forall>i<length tr. \<forall>d. tr ! i = Sleep d
           \<longrightarrow> 0 < i \<and> (\<exists>f e. tr ! (i - 1) = GetMedia f (Some e)))"
proof -
  obtain tr where tr: "log (snd (retry_loop drive file_id [0..<3] None w)) = log w @ tr"
      "rounds_trace tr"
    using retry_loop_trace by blast
  have c: "clock (snd (retry_loop drive file_id [0..<3] None w)) = clock w + slept tr"
    using tr(1) by (rule retry_loop_clock)
  have s: "Suc i < length tr \<and> tr ! Suc i = Sleep (8 / 10)"
    if "i < length tr" "tr ! i = GetMedia f (Some (SSLError m))" for i f m
    using rounds_trace_backoff [OF tr(2) that] by simp
  have o: "Suc i < length tr \<and> tr ! Suc i = Sleep (5 / 10)"
    if "i < length tr" "tr ! i = GetMedia f (Some (OtherError m))" for i f m
    using rounds_trace_backoff [OF tr(2) that] by simp
  have p: "0 < i \<and> (\<exists>f e. tr ! (i - 1) = GetMedia f (Some e))"
    if "i < length tr" "tr ! i = Sleep d" for i d
    using rounds_trace_sleep [OF tr(2) that] by blast
  from tr(1) c s o p show ?thesis
    unfolding download_image_bytes_wrapped_def by blast
qed

theorem retry_backoff_by_error_class_witness:
  "log (snd (download_image_bytes_wrapped failing_drive ''f1'' fresh_world)) ! 0
       = GetMedia ''f1'' (Some (SSLError ''handshake''))
   \<and> log (snd (download_image_bytes_wrapped failing_drive ''f1'' fresh_world)) ! 1 = Sleep (8 / 10)
   \<and> log (snd (download_image_bytes_wrapped failing_drive ''f1'' fresh_world)) ! 2
       = GetMedia ''f1'' (Some (OtherError ''reset''))
   \<and> log (snd (download_image_bytes_wrapped failing_drive ''f1'' fresh_world)) ! 3 = Sleep (5 / 10)"
proof -
  let ?w = "snd (download_image_bytes_wrapped failing_drive ''f1'' fresh_world)"
  from retry_backoff_by_error_class [of failing_drive "''f1''" fresh_world]
  obtain tr where tr: "log ?w = log fresh_world @ tr"
    and s: "\<forall>i<length tr. \<forall>f m. tr ! i = GetMedia f (Some (SSLError m))
           \<longrightarrow> Suc i < length tr \<and> tr ! Suc i = Sleep (8 / 10)"
    and o: "\<forall>i<length tr. \<forall>f m. tr ! i = GetMedia f (Some (OtherError m))
           \<longrightarrow> Suc i < length tr \<and> tr ! Suc i = Sleep (5 / 10)"
    by blast
  have l: "log ?w = tr" using tr by (simp add: fresh_world_def)
  have n: "length (log ?w) = 6"
    by code_simp
  have a0: "log ?w ! 0 = GetMedia ''f1'' (Some (SSLError ''handshake''))"
    by code_simp
  have a2: "log ?w ! 2 = GetMedia ''f1'' (Some (OtherError ''reset''))"
    by code_simp
  have "0 < length tr" "2 < length tr" using n l by simp_all
  from s [rule_format, OF this(1)] a0 l have b1: "tr ! Suc 0 = Sleep (8 / 10)" by simp
  from o [rule_format, OF \<open>2 < length tr\<close>] a2 l have b3: "tr ! Suc 2 = Sleep (5 / 10)" by simp
  have "Suc 2 = 3" by simp
  with a0 a2 b1 b3 l show ?thesis by simp
qed

text \<open>
  C9. Grid. For a positive column count the renderer returns a page of that many
  columns, and the image at index \<open>i\<close> of the list is the cell at row \<open>i div c\<close> of
  column \<open>i mod c\<close>: the images go to the columns in turn, in list order, so the rows
  read left to right and top to bottom. The columns hold nothing else: column \<open>k\<close> has
  as many cells as there are indices \<open>i\<close> below the number of images with
  \<open>i mod c = k\<close>.
\<close>

theorem gallery_round_robin:
  assumes "0 < cols"
  shows "\<exists>columns. fst (render_gallery drive pil images cols max_size w) = Inr columns
     \<and> length columns = nat cols
     \<and> (\<forall>i<length images.
           i div nat cols < length (columns ! (i mod nat cols))
           \<and> columns ! (i mod nat cols) ! (i div nat cols)
               = render_cell (images ! i) (outcomes drive pil max_size images w ! i))
     \<and> (\<forall>k<nat cols. length (columns ! k) = (length images + nat cols - Suc k) div nat cols)"
proof -
  let ?c = "nat cols"
  let ?cells = "map2 render_cell images (outcomes drive pil max_size images w)"
  let ?columns = "place ?c 0 ?cells (replicate ?c [])"
  have c: "0 < ?c" using assms by simp
  have f0: "filled ?c 0 (replicate ?c ([] :: 'a element list list))"
    by (rule filled_empty [OF c])
  have r: "fst (render_gallery drive pil images cols max_size w) = Inr ?columns"
    by (rule render_gallery_columns [OF assms])
  have n: "length ?cells = length images" by simp
  have cell: "i div ?c < length (?columns ! (i mod ?c))
      \<and> ?columns ! (i mod ?c) ! (i div ?c)
          = render_cell (images ! i) (outcomes drive pil max_size images w ! i)"
    if "i < length images" for i
  proof -
    have "i < length ?cells" using that by simp
    from place_nth [OF c f0 this] that show ?thesis by simp
  qed
  have "filled ?c (0 + length ?cells) ?columns"
    by (rule place_filled [OF c f0])
  then have len: "\<forall>k<?c. length (?columns ! k) = (length images + ?c - Suc k) div ?c"
    by (simp add: filled_def)
  have "length ?columns = ?c" by simp
  with r cell len show ?thesis by blast
qed

theorem gallery_round_robin_witness:
  "(0::int) < 2
   \<and> (\<exists>columns.
        fst (render_gallery example_drive example_pil example_page 2 (2000, 2000) fresh_world)
          = Inr columns
        \<and> columns ! 0 ! 1 = [StImage ''JPEG f3'' ''c.jpg''])"
proof -
  have h1: "(0::int) < 2" by simp
  have n: "length example_page = 3" by (simp add: example_page_def)
  from gallery_round_robin [OF h1, of example_drive example_pil example_page "(2000, 2000)" fresh_world]
  obtain columns where
    r: "fst (render_gallery example_drive example_pil example_page 2 (2000, 2000) fresh_world)
          = Inr columns"
    and c: "\<forall>i<length example_page. columns ! (i mod nat 2) ! (i div nat 2)
               = render_cell (example_page ! i)
                   (outcomes example_drive example_pil (2000, 2000) example_page fresh_world ! i)"
    by blast
  have "(2::nat) < length example_page" using n by simp
  with c have "columns ! (2 mod nat 2) ! (2 div nat 2)
      = render_cell (example_page ! 2)
          (outcomes example_drive example_pil (2000, 2000) example_page fresh_world ! 2)"
    by blast
  then have "columns ! (2 mod nat 2) ! (2 div nat 2)
      = render_cell (example_page ! 2) (Inr ''JPEG f3'')"
    by (simp add: example_outcomes)
  then have "columns ! 0 ! 1 = [StImage ''JPEG f3'' ''c.jpg'']"
    by (simp add: render_cell_def example_page_def)
  with r h1 show ?thesis by blast
qed

text \<open>
  C10. Selection by name. The session passed on is the first one in the list whose
  name equals the chosen name. So a session that comes after another session of the
  same name (and is a different folder: ids are unique) is not the result of any
  choice.
\<close>

theorem selected_session_first_match:
  assumes "j < length sessions"
  shows "(\<exists>i\<le>j. selected_session sessions (name (sessions ! j)) = Some (sessions ! i)
            \<and> name (sessions ! i) = name (sessions ! j)
            \<and> (\<forall>k<i. name (sessions ! k) \<noteq> name (sessions ! j)))
       \<and> (\<forall>i<j. name (sessions ! i) = name (sessions ! j) \<longrightarrow> distinct (map id' sessions)
            \<longrightarrow> (\<forall>c. selected_session sessions c \<noteq> Some (sessions ! j)))"
proof -
  let ?P = "\<lambda>s. name s = name (sessions ! j)"
  have "sessions ! j \<in> set sessions" using assms by simp
  then have "find ?P sessions \<noteq> None"
    unfolding find_None_iff by blast
  then obtain x where fx: "find ?P sessions = Some x" by auto
  then obtain i where i: "i < length sessions" "?P (sessions ! i)" "x = sessions ! i"
      "\<forall>k<i. \<not> ?P (sessions ! k)"
    by (auto simp: find_Some_iff)
  have ij: "i \<le> j"
  proof (rule ccontr)
    assume "\<not> i \<le> j"
    then have "j < i" by simp
    with i(4) show False by auto
  qed
  have first: "\<exists>i\<le>j. selected_session sessions (name (sessions ! j)) = Some (sessions ! i)
            \<and> name (sessions ! i) = name (sessions ! j)
            \<and> (\<forall>k<i. name (sessions ! k) \<noteq> name (sessions ! j))"
    using fx i ij unfolding selected_session_def by blast
  have later: "selected_session sessions c \<noteq> Some (sessions ! j)"
    if a: "a < j" "name (sessions ! a) = name (sessions ! j)" "distinct (map id' sessions)"
    for a c
  proof
    assume "selected_session sessions c = Some (sessions ! j)"
    then obtain b where b: "b < length sessions" "name (sessions ! b) = c"
        "sessions ! j = sessions ! b" "\<forall>k<b. name (sessions ! k) \<noteq> c"
      by (auto simp: selected_session_def find_Some_iff)
    have "id' (sessions ! j) = id' (sessions ! b)" using b(3) by simp
    then have "map id' sessions ! j = map id' sessions ! b"
      using assms b(1) by simp
    moreover have "j < length (map id' sessions)" "b < length (map id' sessions)"
      using assms b(1) by simp_all
    ultimately have "j = b"
      using nth_eq_iff_index_eq [OF a(3)] by blast
    with b(2,4) a(1,2) show False by auto
  qed
  from first later show ?thesis by blast
qed

theorem selected_session_first_match_witness:
  "(1::nat) < length [\<lparr>id' = ''f1'', name = ''2024-03-05'', mimeType = None\<rparr>,
                     \<lparr>id' = ''f2'', name = ''2024-03-05'', mimeType = None\<rparr>]
   \<and> selected_session [\<lparr>id' = ''f1'', name = ''2024-03-05'', mimeType = None\<rparr>,
                       \<lparr>id' = ''f2'', name = ''2024-03-05'', mimeType = None\<rparr>] ''2024-03-05''
       = Some \<lparr>id' = ''f1'', name = ''2024-03-05'', mimeType = None\<rparr>
   \<and> (\<forall>c. selected_session [\<lparr>id' = ''f1'', name = ''2024-03-05'', mimeType = None\<rparr>,
                            \<lparr>id' = ''f2'', name = ''2024-03-05'', mimeType = None\<rparr>] c
            \<noteq> Some \<lparr>id' = ''f2'', name = ''2024-03-05'', mimeType = None\<rparr>)"
proof -
  let ?S = "[\<lparr>id' = ''f1'', name = ''2024-03-05'', mimeType = None\<rparr>,
             \<lparr>id' = ''f2'', name = ''2024-03-05'', mimeType = None\<rparr>]"
  have h: "(1::nat) < length ?S" by simp
  have d: "distinct (map id' ?S)" by simp
  have f: "selected_session ?S ''2024-03-05''
       = Some \<lparr>id' = ''f1'', name = ''2024-03-05'', mimeType = None\<rparr>"
    by (simp add: selected_session_def)
  from selected_session_first_match [OF h] have
    "\<forall>i<1. name (?S ! i) = name (?S ! 1) \<longrightarrow> distinct (map id' ?S)
        \<longrightarrow> (\<forall>c. selected_session ?S c \<noteq> Some (?S ! 1))"
    by blast
  then have "\<forall>c. selected_session ?S c \<noteq> Some (?S ! 1)"
    using d by simp
  with h f show ?thesis by simp
qed

end
